theory Spec2Isabelle
  imports Complex_Main "HOL-Library.Product_Lexorder" "HOL-Library.AList"
begin

section \<open>Python and numpy primitives used by the dataset builder\<close>

text \<open>
  Exceptions the modelled code can raise. \<open>IndexError\<close> is the subscript \<open>lengths[0]\<close> on
  an empty list, \<open>ValueError\<close> is \<open>np.concatenate\<close> on an empty sequence of arrays, and
  \<open>IOError\<close> stands for whatever \<open>librosa.load\<close> raises on an unreadable file.
\<close>

datatype py_error = IndexError | ValueError | IOError

text \<open>
  An interval is one row \<open>(start, end)\<close> of the array \<open>librosa.effects.split\<close> returns.
  The entries are numpy integers; they are modelled as \<open>int\<close>, since the code subtracts
  and compares them and Python slicing accepts negative bounds.
\<close>

type_synonym interval = "int \<times> int"

text \<open>
  The slice \<open>y[s:e]\<close> of a one-dimensional array: a negative bound counts from the end,
  both bounds are clipped to \<open>[0, len(y)]\<close>, and the slice is empty when the clipped
  stop is not beyond the clipped start.
\<close>

definition clip_index :: "nat \<Rightarrow> int \<Rightarrow> nat" where
  "clip_index n i = (if i < 0 then nat (max (i + int n) 0) else min (nat i) n)"

definition py_slice :: "'a list \<Rightarrow> int \<Rightarrow> int \<Rightarrow> 'a list" where
  "py_slice y s e =
     (let lo = clip_index (length y) s; hi = clip_index (length y) e
      in take (hi - lo) (drop lo y))"

text \<open>
  \<open>list.sort(reverse=True)\<close>: CPython reverses the list, sorts it stably in ascending
  order and reverses the result. The elements here are triples of integers, compared
  lexicographically as Python compares tuples.
\<close>

definition py_sort_reverse :: "'a::linorder list \<Rightarrow> 'a list" where
  "py_sort_reverse xs = rev (sort (rev xs))"

text \<open>\<open>np.concatenate(parts)\<close> raises \<open>ValueError\<close> when \<open>parts\<close> is empty.\<close>

definition np_concatenate :: "'a list list \<Rightarrow> py_error + 'a list" where
  "np_concatenate parts = (case parts of [] \<Rightarrow> Inl ValueError | _ # _ \<Rightarrow> Inr (concat parts))"

subsection \<open>The duration test\<close>

text \<open>
  \<open>len(proc) / SAMPLE_RATE\<close> divides two Python integers: the result is the binary64
  number nearest to the exact quotient (ties to even). A finite binary64 number is a
  rational, so Python floats are modelled as \<open>rat\<close> and the division rounds the exact
  quotient to 53 significant bits. The exponent range is not modelled: the quotients
  that occur are sample counts over 16000, far from overflow and underflow.
\<close>

definition SAMPLE_RATE :: int where
  "SAMPLE_RATE = 16000"

function bit_length :: "int \<Rightarrow> nat" where
  "bit_length n = (if n \<le> 0 then 0 else Suc (bit_length (n div 2)))"
  by pat_completeness auto
termination
  by (relation "measure nat") auto

declare bit_length.simps [simp del]

definition pow2 :: "int \<Rightarrow> rat" where
  "pow2 k = (if 0 \<le> k then 2 ^ nat k else 1 / 2 ^ nat (- k))"

definition round_half_even :: "rat \<Rightarrow> int" where
  "round_half_even x =
     (let f = \<lfloor>x\<rfloor>; d = x - of_int f
      in if d < 1 / 2 then f else if 1 / 2 < d then f + 1 else if even f then f else f + 1)"

definition binary_exponent :: "rat \<Rightarrow> int" where
  "binary_exponent x =
     (let (p, q) = quotient_of x;
          k = int (bit_length p) - int (bit_length q)
      in if pow2 k \<le> x then k else k - 1)"

definition binary64 :: "rat \<Rightarrow> rat" where
  "binary64 x =
     (if x = 0 then 0
      else let a = \<bar>x\<bar>; u = pow2 (binary_exponent a - 52)
           in sgn x * of_int (round_half_even (a / u)) * u)"

definition duration :: "nat \<Rightarrow> rat" where
  "duration n = binary64 (of_int (int n) / of_int SAMPLE_RATE)"

section \<open>LayDataSet.py: selecting the processed segment\<close>

text \<open>
  The policy branch, written identically in \<open>_prepare_processed\<close> (lines 183 to 191) and
  in \<open>_process_label\<close> (lines 258 to 265). The method is the string of the combo box: the
  value \<open>longest\<close> takes the first branch and every other value concatenates.
\<close>

definition select_segment :: "string \<Rightarrow> 'a list \<Rightarrow> interval list \<Rightarrow> py_error + 'a list" where
  "select_segment method y ivs =
     (if method = ''longest'' then
        (case py_sort_reverse (map (\<lambda>(start, stop). (stop - start, start, stop)) ivs) of
           [] \<Rightarrow> Inl IndexError
         | (_, s, e) # _ \<Rightarrow> Inr (py_slice y s e))
      else np_concatenate (map (\<lambda>(s, e). py_slice y s e) ivs))"

text \<open>What \<open>_log\<close> appends to the text widget, one constructor per message of the code.\<close>

datatype log_entry =
    Intervals_found nat
  | Discarding
  | Processed_length rat
  | No_activity string
  | Too_short_skip string
  | Error_processing string py_error
  | Processed_label nat

text \<open>
  The fields \<open>_prepare_processed\<close> assigns, and the log. The parameter \<open>split\<close> is
  \<open>librosa.effects.split\<close> at the \<open>top_db\<close> of the entry field; it is a library function
  and stays a parameter.
\<close>

record 'a preview =
  intervals :: "interval list"
  processed_y :: "'a list"
  preview_log :: "log_entry list"

definition prepare_processed ::
  "('a list \<Rightarrow> interval list) \<Rightarrow> string \<Rightarrow> rat \<Rightarrow> 'a list \<Rightarrow> py_error + 'a preview" where
  "prepare_processed split method min_duration y =
     (let ivs = split y; lg = [Intervals_found (length ivs)]
      in if length ivs = 0 then
           Inr \<lparr>intervals = ivs, processed_y = [], preview_log = lg\<rparr>
         else
           (case select_segment method y ivs of
              Inl err \<Rightarrow> Inl err
            | Inr seg \<Rightarrow>
                if duration (length seg) < min_duration then
                  Inr \<lparr>intervals = ivs, processed_y = [], preview_log = lg @ [Discarding]\<rparr>
                else
                  Inr \<lparr>intervals = ivs, processed_y = seg,
                       preview_log = lg @ [Processed_length (duration (length seg))]\<rparr>))"

text \<open>
  The body of the loop of \<open>_process_label\<close> for one loaded file, up to the decision to
  write: either a skip (the two \<open>continue\<close> statements) or the samples to write.
\<close>

datatype 'a outcome = Skip_no_activity | Skip_too_short | Write_file "'a list"

definition process_clip ::
  "('a list \<Rightarrow> interval list) \<Rightarrow> string \<Rightarrow> rat \<Rightarrow> 'a list \<Rightarrow> py_error + 'a outcome" where
  "process_clip split method min_duration y =
     (let ivs = split y
      in if length ivs = 0 then Inr Skip_no_activity
         else
           (case select_segment method y ivs of
              Inl err \<Rightarrow> Inl err
            | Inr proc \<Rightarrow>
                if duration (length proc) < min_duration then Inr Skip_too_short
                else Inr (Write_file proc)))"

text \<open>
  The file filter of both directory scans, \<open>f.lower().endswith('.wav')\<close>. File names
  are taken to be ASCII, where \<open>lower\<close> changes the letters \<open>A\<close> to \<open>Z\<close> only.
\<close>

definition lower_char :: "char \<Rightarrow> char" where
  "lower_char c =
     (let n = (of_char c :: nat) in if 65 \<le> n \<and> n \<le> 90 then char_of (n + 32) else c)"

definition endswith :: "string \<Rightarrow> string \<Rightarrow> bool" where
  "endswith s suf = (length suf \<le> length s \<and> drop (length s - length suf) s = suf)"

definition is_wav :: "string \<Rightarrow> bool" where
  "is_wav f = endswith (map lower_char f) ''.wav''"

text \<open>
  A directory is the list of its entries in the order \<open>os.listdir\<close> gives them. An entry
  of a recordings folder carries what \<open>librosa.load\<close> does on it: an exception or the
  waveform. An entry of a dataset folder carries the samples \<open>sf.write\<close> stored.

  \<open>_process_label\<close> keeps the output folder, the log and the counter across the loop.
  One iteration is \<open>process_file\<close>: the \<open>try\<close> body is \<open>process_clip\<close> on the loaded
  waveform, the \<open>except\<close> clause logs the exception, and a kept clip is written under
  the name of its source, replacing a file of that name. The parameter \<open>pcm16\<close> is the
  conversion \<open>(proc*32767).astype(np.int16)\<close> of one sample, and \<open>sf.write\<close> is taken
  to succeed. The log names a file by \<open>f\<close> where the code prints the joined path.
\<close>

record 'b batch =
  out_dir :: "(string \<times> 'b list) list"
  batch_log :: "log_entry list"
  count :: nat

definition process_file ::
  "('a list \<Rightarrow> interval list) \<Rightarrow> ('a \<Rightarrow> 'b) \<Rightarrow> string \<Rightarrow> rat \<Rightarrow>
   string \<times> (py_error + 'a list) \<Rightarrow> 'b batch \<Rightarrow> 'b batch" where
  "process_file split pcm16 method min_duration entry st =
     (let f = fst entry;
          r = (case snd entry of
                 Inl err \<Rightarrow> Inl err
               | Inr y \<Rightarrow> process_clip split method min_duration y)
      in case r of
           Inl err \<Rightarrow> st\<lparr>batch_log := batch_log st @ [Error_processing f err]\<rparr>
         | Inr Skip_no_activity \<Rightarrow> st\<lparr>batch_log := batch_log st @ [No_activity f]\<rparr>
         | Inr Skip_too_short \<Rightarrow> st\<lparr>batch_log := batch_log st @ [Too_short_skip f]\<rparr>
         | Inr (Write_file proc) \<Rightarrow>
             st\<lparr>out_dir := AList.update f (map pcm16 proc) (out_dir st),
                count := count st + 1\<rparr>)"

definition process_files ::
  "('a list \<Rightarrow> interval list) \<Rightarrow> ('a \<Rightarrow> 'b) \<Rightarrow> string \<Rightarrow> rat \<Rightarrow>
   (string \<times> (py_error + 'a list)) list \<Rightarrow> 'b batch \<Rightarrow> 'b batch" where
  "process_files split pcm16 method min_duration files st =
     foldl (\<lambda>s entry. process_file split pcm16 method min_duration entry s) st files"

definition process_label ::
  "('a list \<Rightarrow> interval list) \<Rightarrow> ('a \<Rightarrow> 'b) \<Rightarrow> string \<Rightarrow> rat \<Rightarrow>
   (string \<times> (py_error + 'a list)) list \<Rightarrow> (string \<times> 'b list) list \<Rightarrow> 'b batch" where
  "process_label split pcm16 method min_duration folder out =
     (let files = filter (\<lambda>entry. is_wav (fst entry)) folder;
          st = process_files split pcm16 method min_duration files
                 \<lparr>out_dir = out, batch_log = [], count = 0\<rparr>
      in st\<lparr>batch_log := batch_log st @ [Processed_label (count st)]\<rparr>)"

section \<open>train\_ver3.py: fixed-shape features and the loaded dataset\<close>

definition N_MFCC :: nat where
  "N_MFCC = 40"

definition MAX_LEN :: nat where
  "MAX_LEN = 64"

text \<open>
  A two-dimensional array is the list of its rows. \<open>mfe.shape[1]\<close> is the common length
  of the rows; the mel spectrogram has \<open>N_MFCC\<close> rows, so the first row gives it.
\<close>

definition shape1 :: "'c list list \<Rightarrow> nat" where
  "shape1 m = (case m of [] \<Rightarrow> 0 | row # _ \<Rightarrow> length row)"

text \<open>
  Lines 127 to 131 of \<open>_load_dataset\<close>, the same as lines 112 to 116 of \<open>_predict\<close> in
  test\_ver3.py: \<open>np.pad\<close> in constant mode appends \<open>pad_width\<close> zeros to every row, and
  the slice \<open>mfe[:, :MAX_LEN]\<close> keeps the first \<open>MAX_LEN\<close> entries of every row.
\<close>

definition pad_truncate :: "'c::zero list list \<Rightarrow> 'c list list" where
  "pad_truncate mfe =
     (if shape1 mfe < MAX_LEN then
        (let pad_width = MAX_LEN - shape1 mfe
         in map (\<lambda>row. row @ replicate pad_width 0) mfe)
      else map (take MAX_LEN) mfe)"

text \<open>\<open>mfe[..., np.newaxis]\<close> puts every entry into a channel axis of length one.\<close>

definition add_channel :: "'c list list \<Rightarrow> 'c list list list" where
  "add_channel mfe = map (map (\<lambda>v. [v])) mfe"

text \<open>
  The \<open>try\<close> body for one file. The parameter \<open>mfe_of\<close> is the library part: loading the
  stored file, \<open>librosa.feature.melspectrogram\<close> and \<open>librosa.power_to_db\<close>; it gives the
  decibel matrix or the exception raised on the way.
\<close>

definition extract_mfe ::
  "('b list \<Rightarrow> py_error + 'c::zero list list) \<Rightarrow> 'b list \<Rightarrow> py_error + 'c list list list" where
  "extract_mfe mfe_of samples =
     (case mfe_of samples of
        Inl err \<Rightarrow> Inl err
      | Inr mfe \<Rightarrow> Inr (add_channel (pad_truncate mfe)))"

datatype load_entry = Folder_not_found string | Error_loading string py_error

record 'c dataset =
  X :: "'c list list list list"
  Y :: "nat list"
  load_log :: "load_entry list"

definition load_file ::
  "('b list \<Rightarrow> py_error + 'c::zero list list) \<Rightarrow> nat \<Rightarrow> string \<times> 'b list \<Rightarrow>
   'c dataset \<Rightarrow> 'c dataset" where
  "load_file mfe_of idx entry d =
     (case extract_mfe mfe_of (snd entry) of
        Inl err \<Rightarrow> d\<lparr>load_log := load_log d @ [Error_loading (fst entry) err]\<rparr>
      | Inr mfe \<Rightarrow> d\<lparr>X := X d @ [mfe], Y := Y d @ [idx]\<rparr>)"

text \<open>
  The dataset directory maps a label to its folder, or to \<open>None\<close> where
  \<open>os.path.exists\<close> is false.
\<close>

definition load_label ::
  "('b list \<Rightarrow> py_error + 'c::zero list list) \<Rightarrow> (string \<Rightarrow> (string \<times> 'b list) list option) \<Rightarrow>
   nat \<times> string \<Rightarrow> 'c dataset \<Rightarrow> 'c dataset" where
  "load_label mfe_of base_dir il d =
     (case base_dir (snd il) of
        None \<Rightarrow> d\<lparr>load_log := load_log d @ [Folder_not_found (snd il)]\<rparr>
      | Some folder \<Rightarrow>
          foldl (\<lambda>acc entry. load_file mfe_of (fst il) entry acc) d
            (filter (\<lambda>entry. is_wav (fst entry)) folder))"

definition load_dataset ::
  "('b list \<Rightarrow> py_error + 'c::zero list list) \<Rightarrow> (string \<Rightarrow> (string \<times> 'b list) list option) \<Rightarrow>
   string list \<Rightarrow> 'c dataset" where
  "load_dataset mfe_of base_dir selected_labels =
     foldl (\<lambda>acc il. load_label mfe_of base_dir il acc)
       \<lparr>X = [], Y = [], load_log = []\<rparr> (enumerate 0 selected_labels)"

section \<open>Predicates of the properties\<close>

text \<open>
  The invariant of an interval list over a waveform: every interval is a non-empty range
  inside the waveform. It is the invariant of the activity intervals a detector returns,
  and the properties that speak of spans and lengths assume it.
\<close>

definition valid_intervals :: "'a list \<Rightarrow> interval list \<Rightarrow> bool" where
  "valid_intervals y ivs = (\<forall>(s, e) \<in> set ivs. 0 \<le> s \<and> s < e \<and> e \<le> int (length y))"

text \<open>A detector that answers a given interval list on every waveform, for examples.\<close>

definition fixed_split :: "interval list \<Rightarrow> 'a list \<Rightarrow> interval list" where
  "fixed_split ivs y = ivs"

text \<open>A list of rows is an \<open>r\<close> by \<open>c\<close> array.\<close>

definition is_matrix :: "nat \<Rightarrow> nat \<Rightarrow> 'c list list \<Rightarrow> bool" where
  "is_matrix r c m = (length m = r \<and> (\<forall>row \<in> set m. length row = c))"

section \<open>The rounded quotient\<close>

lemma bit_length_bounds:
  "0 < n \<Longrightarrow> n < 2 ^ bit_length n \<and> (2 :: int) ^ bit_length n \<le> 2 * n"
proof (induction n rule: bit_length.induct)
  case (1 n)
  have bl: "bit_length n = Suc (bit_length (n div 2))"
    using "1.prems" by (subst bit_length.simps) simp
  show ?case
  proof (cases "n div 2 = 0")
    case True
    then have "n = 1" using "1.prems" by presburger
    then show ?thesis using bl True by (simp add: bit_length.simps)
  next
    case False
    then have pos: "0 < n div 2" using "1.prems" by presburger
    have ih: "n div 2 < 2 ^ bit_length (n div 2) \<and> (2 :: int) ^ bit_length (n div 2) \<le> 2 * (n div 2)"
      using "1.IH" "1.prems" pos by simp
    have "n < 2 * (n div 2 + 1)" by presburger
    moreover have "2 * (n div 2) \<le> n" by presburger
    ultimately show ?thesis using ih bl by auto
  qed
qed

lemma pow2_pos: "0 < pow2 k"
  by (simp add: pow2_def)

lemma pow2_powi: "pow2 k = 2 powi k"
  by (simp add: pow2_def power_int_def power_inverse[symmetric] inverse_eq_divide power_one_over)

lemma pow2_add: "pow2 (a + b) = pow2 a * pow2 b"
  by (simp add: pow2_powi power_int_add)

lemma pow2_nat: "pow2 (int n) = 2 ^ n"
  by (simp add: pow2_def)

lemma pow2_Suc: "pow2 (k + 1) = pow2 k * 2"
proof -
  have "pow2 1 = 2" by (simp add: pow2_def)
  then show ?thesis by (simp only: pow2_add)
qed

lemma round_half_even_error: "\<bar>of_int (round_half_even z) - z\<bar> \<le> 1 / 2"
proof -
  define d where "d = z - of_int \<lfloor>z\<rfloor>"
  have d: "0 \<le> d" "d < 1" unfolding d_def by linarith+
  have z: "z = of_int \<lfloor>z\<rfloor> + d" unfolding d_def by simp
  consider "d < 1 / 2" | "1 / 2 < d" | "d = 1 / 2" by linarith
  then show ?thesis
  proof cases
    case 1
    then have "round_half_even z = \<lfloor>z\<rfloor>"
      by (simp add: round_half_even_def Let_def d_def)
    then show ?thesis using 1 d z by simp
  next
    case 2
    then have "round_half_even z = \<lfloor>z\<rfloor> + 1"
      by (simp add: round_half_even_def Let_def d_def)
    then show ?thesis using 2 d z by simp
  next
    case 3
    then have "round_half_even z = \<lfloor>z\<rfloor> \<or> round_half_even z = \<lfloor>z\<rfloor> + 1"
      by (simp add: round_half_even_def Let_def d_def)
    then show ?thesis using 3 z by auto
  qed
qed

lemma round_half_even_floor:
  "\<lfloor>z\<rfloor> \<le> round_half_even z \<and> round_half_even z \<le> \<lfloor>z\<rfloor> + 1"
  by (simp add: round_half_even_def Let_def)

lemma binary_exponent_bracket:
  assumes "0 < x"
  shows "pow2 (binary_exponent x) \<le> x \<and> x < pow2 (binary_exponent x + 1)"
proof -
  obtain p q where pq: "quotient_of x = (p, q)" by (cases "quotient_of x")
  have q: "0 < q" using pq by (rule quotient_of_denom_pos)
  have x: "x = of_int p / of_int q" using pq by (rule quotient_of_div)
  have p: "0 < p" using assms q x by (simp add: zero_less_divide_iff)
  define a where "a = bit_length p"
  define b where "b = bit_length q"
  define k where "k = int a - int b"
  have bp: "p < 2 ^ a \<and> (2 :: int) ^ a \<le> 2 * p"
    unfolding a_def using bit_length_bounds[OF p] .
  have bq: "q < 2 ^ b \<and> (2 :: int) ^ b \<le> 2 * q"
    unfolding b_def using bit_length_bounds[OF q] .
  have rp: "(of_int p :: rat) < 2 ^ a" "(2 :: rat) ^ a \<le> 2 * of_int p"
    using bp by (metis of_int_less_iff of_int_numeral of_int_power,
                 metis of_int_le_iff of_int_numeral of_int_power of_int_mult)
  have rq: "(of_int q :: rat) < 2 ^ b" "(2 :: rat) ^ b \<le> 2 * of_int q"
    using bq by (metis of_int_less_iff of_int_numeral of_int_power,
                 metis of_int_le_iff of_int_numeral of_int_power of_int_mult)
  have qpos: "(0 :: rat) < of_int q" using q by simp
  have ka: "pow2 k * 2 ^ b = 2 ^ a"
  proof -
    have "pow2 k * pow2 (int b) = pow2 (int a)"
      unfolding k_def pow2_add[symmetric] by simp
    then show ?thesis by (simp add: pow2_nat)
  qed
  have up: "x < pow2 (k + 1)"
  proof -
    have "(of_int p :: rat) * 2 ^ b < 2 ^ a * (2 * of_int q)"
    proof -
      have "of_int p * 2 ^ b < (2 :: rat) ^ a * 2 ^ b" using rp(1) by simp
      also have "\<dots> \<le> 2 ^ a * (2 * of_int q)" using rq(2) by simp
      finally show ?thesis .
    qed
    then have "of_int p * 2 ^ b < pow2 k * 2 ^ b * (2 * of_int q)" by (simp only: ka)
    then have "of_int p < pow2 k * 2 * of_int q" by simp
    then have "of_int p / of_int q < pow2 k * 2" using qpos by (simp add: pos_divide_less_eq)
    then show ?thesis using x by (simp only: pow2_Suc)
  qed
  have lo: "pow2 (k - 1) \<le> x"
  proof -
    have "(2 :: rat) ^ a * of_int q \<le> (2 * of_int p) * (2 :: rat) ^ b"
    proof -
      have "(2 :: rat) ^ a * of_int q \<le> (2 * of_int p) * (of_int q :: rat)"
        using rp(2) qpos by simp
      also have "\<dots> \<le> (2 * of_int p) * 2 ^ b" using rq(1) p by simp
      finally show ?thesis .
    qed
    then have "pow2 k * 2 ^ b * of_int q \<le> (2 * of_int p) * 2 ^ b" by (simp only: ka)
    then have "pow2 k * of_int q \<le> 2 * of_int p" by simp
    then have "pow2 k / 2 \<le> of_int p / of_int q" using qpos by (simp add: pos_le_divide_eq)
    then have "pow2 k / 2 \<le> x" by (simp only: x)
    moreover have "pow2 (k - 1) = pow2 k / 2"
      using pow2_Suc[of "k - 1"] by simp
    ultimately show ?thesis by (simp only:)
  qed
  have e: "binary_exponent x = (if pow2 k \<le> x then k else k - 1)"
    by (simp add: binary_exponent_def pq k_def a_def b_def Let_def)
  show ?thesis using e up lo by (cases "pow2 k \<le> x") auto
qed

text \<open>
  The rounded value of a positive quotient is a significand of 53 bits times a power of
  two, at most half a unit in the last place away from the quotient.
\<close>

lemma binary64_nearest:
  assumes "0 < x"
  shows "\<exists>m. binary64 x = of_int m * pow2 (binary_exponent x - 52) \<and>
           2 ^ 52 \<le> m \<and> m \<le> 2 ^ 53 \<and>
           \<bar>binary64 x - x\<bar> \<le> pow2 (binary_exponent x - 52) / 2"
proof -
  define u where "u = pow2 (binary_exponent x - 52)"
  define z where "z = x / u"
  define m where "m = round_half_even z"
  have u: "0 < u" unfolding u_def by (rule pow2_pos)
  have b64: "binary64 x = of_int m * u"
    using assms by (simp add: binary64_def Let_def u_def z_def m_def)
  have c52: "pow2 52 = 2 ^ 52" and c53: "pow2 53 = 2 ^ 53" by (simp_all add: pow2_def)
  have ue: "pow2 (binary_exponent x) = 2 ^ 52 * u" "pow2 (binary_exponent x + 1) = 2 ^ 53 * u"
  proof -
    have "pow2 (52 + (binary_exponent x - 52)) = pow2 52 * u"
      unfolding u_def by (rule pow2_add)
    then show "pow2 (binary_exponent x) = 2 ^ 52 * u" by (simp only: c52) simp
    have "pow2 (53 + (binary_exponent x - 52)) = pow2 53 * u"
      unfolding u_def by (rule pow2_add)
    moreover have "53 + (binary_exponent x - 52) = binary_exponent x + 1" by simp
    ultimately show "pow2 (binary_exponent x + 1) = 2 ^ 53 * u" by (simp only: c53)
  qed
  have zb: "2 ^ 52 \<le> z" "z < 2 ^ 53"
    using binary_exponent_bracket[OF assms] u unfolding ue z_def
    by (simp_all add: pos_le_divide_eq pos_divide_less_eq)
  have err: "\<bar>of_int m - z\<bar> \<le> 1 / 2" unfolding m_def by (rule round_half_even_error)
  have "of_int m * u - x = (of_int m - z) * u" using u by (simp add: z_def algebra_simps)
  then have "\<bar>of_int m * u - x\<bar> = \<bar>of_int m - z\<bar> * u" using u by (simp add: abs_mult)
  also have "\<dots> \<le> (1 / 2) * u" using err u by (intro mult_right_mono) auto
  finally have e2: "\<bar>binary64 x - x\<bar> \<le> u / 2" using b64 by simp
  have fl: "\<lfloor>z\<rfloor> \<le> m" "m \<le> \<lfloor>z\<rfloor> + 1"
    unfolding m_def using round_half_even_floor[of z] by simp_all
  have "2 ^ 52 \<le> \<lfloor>z\<rfloor>" using zb(1) by (simp add: le_floor_iff)
  then have m1: "2 ^ 52 \<le> m" using fl by linarith
  have "\<lfloor>z\<rfloor> < 2 ^ 53" using zb(2) by (simp add: floor_less_iff)
  then have m2: "m \<le> 2 ^ 53" using fl by linarith
  show ?thesis using b64 m1 m2 e2 unfolding u_def by blast
qed

text \<open>
  A segment of 3200 samples lasts 0.2 seconds. The quotient is rounded to the binary64
  number nearest to 0.2, which lies above the rational 1/5, and it is not less than the
  minimum duration the float 0.2 stands for.
\<close>

lemma duration_of_3200_samples:
  "duration 3200 = 3602879701896397 / 18014398509481984 \<and>
   (1 / 5 :: rat) < 3602879701896397 / 18014398509481984 \<and>
   \<not> duration 3200 < 3602879701896397 / 18014398509481984"
  unfolding duration_def by code_simp

section \<open>Sorting in descending order\<close>

lemma sorted_last_Max: "sorted zs \<Longrightarrow> zs \<noteq> [] \<Longrightarrow> last zs = Max (set zs)"
proof -
  assume s: "sorted zs" and ne: "zs \<noteq> []"
  have "zs = butlast zs @ [last zs]" using ne by simp
  then have "sorted (butlast zs @ [last zs])" using s by simp
  then have "\<forall>x \<in> set (butlast zs). x \<le> last zs" by (simp add: sorted_append)
  moreover have "set zs = insert (last zs) (set (butlast zs))"
    using ne by (metis append_butlast_last_id list.simps(15) rotate1.simps(2) set_rotate1)
  ultimately have "\<forall>x \<in> set zs. x \<le> last zs" by auto
  then show ?thesis using ne by (intro Max_eqI[symmetric]) auto
qed

lemma py_sort_reverse_hd:
  assumes "xs \<noteq> []"
  shows "\<exists>rest. py_sort_reverse xs = Max (set xs) # rest"
proof -
  let ?zs = "sort (rev xs)"
  have ne: "?zs \<noteq> []" using assms by (metis length_sort length_rev length_0_conv)
  have "last ?zs = Max (set ?zs)" using ne by (intro sorted_last_Max) simp_all
  then have l: "last ?zs = Max (set xs)" by simp
  have "rev ?zs = last ?zs # rev (butlast ?zs)"
    using ne by (metis append_butlast_last_id rev_append rev_singleton_conv append_Cons append_Nil)
  then have "py_sort_reverse xs = last ?zs # rev (butlast ?zs)"
    unfolding py_sort_reverse_def .
  then have "py_sort_reverse xs = Max (set xs) # rev (butlast ?zs)"
    by (simp only: l)
  then show ?thesis by (rule exI)
qed

section \<open>Slices\<close>

lemma py_slice_valid:
  "0 \<le> s \<Longrightarrow> s \<le> e \<Longrightarrow> e \<le> int (length y) \<Longrightarrow> length (py_slice y s e) = nat (e - s)"
  by (auto simp: py_slice_def clip_index_def Let_def)

lemma py_slice_valid_interval:
  assumes "valid_intervals y ivs" "(s, e) \<in> set ivs"
  shows "int (length (py_slice y s e)) = e - s" "py_slice y s e \<noteq> []"
proof -
  have b: "0 \<le> s" "s < e" "e \<le> int (length y)"
    using assms by (auto simp: valid_intervals_def)
  then have l: "length (py_slice y s e) = nat (e - s)" by (intro py_slice_valid) auto
  show "int (length (py_slice y s e)) = e - s" using l b by simp
  show "py_slice y s e \<noteq> []" using l b by auto
qed

section \<open>The policy branch\<close>

lemma select_longest:
  assumes "ivs \<noteq> []"
  shows "\<exists>s e. (s, e) \<in> set ivs \<and> select_segment ''longest'' y ivs = Inr (py_slice y s e) \<and>
           (\<forall>(s', e') \<in> set ivs. e' - s' < e - s \<or> (e' - s' = e - s \<and> s' \<le> s))"
proof -
  let ?g = "\<lambda>(start, stop). (stop - start, start, stop) :: int \<times> int \<times> int"
  let ?ls = "map ?g ivs"
  have ne: "?ls \<noteq> []" using assms by simp
  obtain rest where r: "py_sort_reverse ?ls = Max (set ?ls) # rest"
    using py_sort_reverse_hd[OF ne] by blast
  have "Max (set ?ls) \<in> set ?ls" using ne by (intro Max_in) auto
  then obtain s e where se: "(s, e) \<in> set ivs" and m: "Max (set ?ls) = (e - s, s, e)"
    by auto
  have ub: "\<forall>t \<in> set ?ls. t \<le> (e - s, s, e)"
  proof
    fix t assume "t \<in> set ?ls"
    then have "t \<le> Max (set ?ls)" by (intro Max_ge) auto
    then show "t \<le> (e - s, s, e)" by (simp only: m)
  qed
  have "e' - s' < e - s \<or> (e' - s' = e - s \<and> s' \<le> s)" if "(s', e') \<in> set ivs" for s' e'
  proof -
    have "(e' - s', s', e') \<in> set ?ls" using that by force
    with ub have "(e' - s', s', e') \<le> (e - s, s, e)" by blast
    then show ?thesis by (auto simp: less_eq_prod_def)
  qed
  then have "\<forall>(s', e') \<in> set ivs. e' - s' < e - s \<or> (e' - s' = e - s \<and> s' \<le> s)"
    by blast
  moreover have "select_segment ''longest'' y ivs = Inr (py_slice y s e)"
    unfolding select_segment_def using r m by simp
  ultimately show ?thesis using se by blast
qed

lemma select_concat:
  assumes "method \<noteq> ''longest''" "ivs \<noteq> []"
  shows "select_segment method y ivs = Inr (concat (map (\<lambda>(s, e). py_slice y s e) ivs))"
  using assms by (cases ivs) (simp_all add: select_segment_def np_concatenate_def)

lemma select_segment_total:
  assumes "ivs \<noteq> []"
  shows "\<exists>seg. select_segment method y ivs = Inr seg"
proof (cases "method = ''longest''")
  case True
  then show ?thesis using select_longest[OF assms, of y] by blast
next
  case False
  then show ?thesis using select_concat[OF False assms] by blast
qed



section \<open>The two callers\<close>

lemma prepare_processed_selected:
  assumes "split y \<noteq> []" "select_segment method y (split y) = Inr seg"
  shows "prepare_processed split method md y =
     Inr \<lparr>intervals = split y,
          processed_y = (if duration (length seg) < md then [] else seg),
          preview_log = Intervals_found (length (split y)) #
            (if duration (length seg) < md then [Discarding]
             else [Processed_length (duration (length seg))])\<rparr>"
  using assms by (simp add: prepare_processed_def Let_def)

lemma prepare_processed_no_intervals:
  assumes "split y = []"
  shows "prepare_processed split method md y =
     Inr \<lparr>intervals = [], processed_y = [], preview_log = [Intervals_found 0]\<rparr>"
  using assms by (simp add: prepare_processed_def Let_def)

lemma process_clip_selected:
  assumes "split y \<noteq> []" "select_segment method y (split y) = Inr seg"
  shows "process_clip split method md y =
     Inr (if duration (length seg) < md then Skip_too_short else Write_file seg)"
  using assms by (simp add: process_clip_def Let_def)

lemma process_clip_no_intervals:
  assumes "split y = []"
  shows "process_clip split method md y = Inr Skip_no_activity"
  using assms by (simp add: process_clip_def Let_def)

section \<open>Padding and truncation\<close>

lemma shape1_matrix:
  assumes "is_matrix r c m" "0 < r"
  shows "shape1 m = c"
  using assms by (cases m) (auto simp: is_matrix_def shape1_def)

lemma pad_truncate_pad:
  assumes "is_matrix r c m" "0 < r" "c < MAX_LEN"
  shows "pad_truncate m = map (\<lambda>row. row @ replicate (MAX_LEN - c) 0) m"
  using shape1_matrix[OF assms(1,2)] assms(3) by (simp add: pad_truncate_def Let_def)

lemma pad_truncate_truncate:
  assumes "is_matrix r c m" "0 < r" "MAX_LEN \<le> c"
  shows "pad_truncate m = map (take MAX_LEN) m"
  using shape1_matrix[OF assms(1,2)] assms(3) by (simp add: pad_truncate_def Let_def)

lemma pad_truncate_is_matrix:
  assumes "is_matrix r c m" "0 < r"
  shows "is_matrix r MAX_LEN (pad_truncate m)"
proof (cases "c < MAX_LEN")
  case True
  show ?thesis
    using assms(1) True unfolding pad_truncate_pad[OF assms True] is_matrix_def by auto
next
  case False
  then have le: "MAX_LEN \<le> c" by simp
  show ?thesis
    using assms(1) le unfolding pad_truncate_truncate[OF assms le] is_matrix_def by auto
qed

section \<open>The batch loop\<close>

lemma process_file_too_short:
  assumes "process_clip split method md y = Inr Skip_too_short"
  shows "process_file split pcm16 method md (f, Inr y) st =
           st\<lparr>batch_log := batch_log st @ [Too_short_skip f]\<rparr>"
  using assms by (simp add: process_file_def)

lemma process_file_fields:
  "out_dir (process_file split pcm16 method md entry st) = out_dir st \<or>
   (\<exists>content. out_dir (process_file split pcm16 method md entry st) =
      AList.update (fst entry) content (out_dir st))"
  by (auto simp: process_file_def Let_def split: sum.splits outcome.splits)

lemma process_file_cong:
  assumes "out_dir st = out_dir st'" "count st = count st'"
  shows "out_dir (process_file split pcm16 method md entry st) =
           out_dir (process_file split pcm16 method md entry st') \<and>
         count (process_file split pcm16 method md entry st) =
           count (process_file split pcm16 method md entry st')"
  using assms by (auto simp: process_file_def Let_def split: sum.splits outcome.splits)

lemma process_file_log_grows:
  "set (batch_log st) \<subseteq> set (batch_log (process_file split pcm16 method md entry st))"
  by (auto simp: process_file_def Let_def split: sum.splits outcome.splits)

lemma process_files_append:
  "process_files split pcm16 method md (xs @ ys) st =
     process_files split pcm16 method md ys (process_files split pcm16 method md xs st)"
  by (simp add: process_files_def)

lemma process_files_Cons:
  "process_files split pcm16 method md (x # xs) st =
     process_files split pcm16 method md xs (process_file split pcm16 method md x st)"
  by (simp add: process_files_def)

lemma process_files_cong:
  assumes "out_dir st = out_dir st'" "count st = count st'"
  shows "out_dir (process_files split pcm16 method md files st) =
           out_dir (process_files split pcm16 method md files st') \<and>
         count (process_files split pcm16 method md files st) =
           count (process_files split pcm16 method md files st')"
  using assms
proof (induction files arbitrary: st st')
  case Nil
  then show ?case by (simp add: process_files_def)
next
  case (Cons x xs)
  have "out_dir (process_file split pcm16 method md x st) =
          out_dir (process_file split pcm16 method md x st') \<and>
        count (process_file split pcm16 method md x st) =
          count (process_file split pcm16 method md x st')"
    using process_file_cong[OF Cons.prems] .
  then show ?case using Cons.IH unfolding process_files_Cons by blast
qed

lemma process_files_log_grows:
  "set (batch_log st) \<subseteq> set (batch_log (process_files split pcm16 method md files st))"
proof (induction files arbitrary: st)
  case Nil
  then show ?case by (simp add: process_files_def)
next
  case (Cons x xs)
  show ?case
    unfolding process_files_Cons
    using process_file_log_grows[of st split pcm16 "method" md x]
      Cons.IH[of "process_file split pcm16 method md x st"]
    by blast
qed

lemma update_names: "fst ` set (AList.update k v al) = insert k (fst ` set al)"
  by (induction al) auto

lemma process_files_names:
  "fst ` set (out_dir (process_files split pcm16 method md files st))
     \<subseteq> fst ` set files \<union> fst ` set (out_dir st)"
proof (induction files arbitrary: st)
  case Nil
  then show ?case by (simp add: process_files_def)
next
  case (Cons x xs)
  define A where "A = fst ` set (out_dir (process_file split pcm16 method md x st))"
  define B where "B = fst ` set (out_dir (process_files split pcm16 method md xs
      (process_file split pcm16 method md x st)))"
  define D where "D = fst ` set (out_dir st)"
  define N where "N = fst ` set xs"
  have a: "A \<subseteq> insert (fst x) D"
  proof -
    consider "out_dir (process_file split pcm16 method md x st) = out_dir st"
      | content where "out_dir (process_file split pcm16 method md x st) =
          AList.update (fst x) content (out_dir st)"
      using process_file_fields[of split pcm16 "method" md x st] by blast
    then show ?thesis
    proof cases
      case 1
      then show ?thesis unfolding A_def D_def by auto
    next
      case 2
      then show ?thesis unfolding A_def D_def by (simp only: update_names)
    qed
  qed
  have b: "B \<subseteq> N \<union> A"
    unfolding A_def B_def N_def
    using Cons.IH[of "process_file split pcm16 method md x st"] .
  have "B \<subseteq> insert (fst x) N \<union> D" using a b by blast
  moreover have "fst ` set (x # xs) = insert (fst x) N" unfolding N_def by simp
  ultimately show ?case
    unfolding process_files_Cons B_def D_def by (simp only:)
qed

lemma process_label_skips:
  assumes rej: "process_clip split method md y = Inr Skip_too_short"
  shows "out_dir (process_label split pcm16 method md (pre @ (f, Inr y) # post) out) =
           out_dir (process_label split pcm16 method md (pre @ post) out) \<and>
         count (process_label split pcm16 method md (pre @ (f, Inr y) # post) out) =
           count (process_label split pcm16 method md (pre @ post) out)"
proof (cases "is_wav f")
  case False
  then show ?thesis by (simp add: process_label_def)
next
  case True
  let ?w = "filter (\<lambda>entry. is_wav (fst entry))"
  let ?st0 = "\<lparr>out_dir = out, batch_log = [], count = 0\<rparr>"
  let ?st1 = "process_files split pcm16 method md (?w pre) ?st0"
  have fl: "?w (pre @ (f, Inr y) # post) = ?w pre @ (f, Inr y) # ?w post"
    using True by simp
  have "process_files split pcm16 method md (?w (pre @ (f, Inr y) # post)) ?st0 =
        process_files split pcm16 method md (?w post)
          (?st1\<lparr>batch_log := batch_log ?st1 @ [Too_short_skip f]\<rparr>)"
    unfolding fl process_files_append process_files_Cons
    by (simp only: process_file_too_short[OF rej])
  moreover have "process_files split pcm16 method md (?w (pre @ post)) ?st0 =
        process_files split pcm16 method md (?w post) ?st1"
    by (simp add: process_files_append)
  moreover have "out_dir (process_files split pcm16 method md (?w post)
          (?st1\<lparr>batch_log := batch_log ?st1 @ [Too_short_skip f]\<rparr>)) =
        out_dir (process_files split pcm16 method md (?w post) ?st1) \<and>
      count (process_files split pcm16 method md (?w post)
          (?st1\<lparr>batch_log := batch_log ?st1 @ [Too_short_skip f]\<rparr>)) =
        count (process_files split pcm16 method md (?w post) ?st1)"
    by (rule process_files_cong) simp_all
  ultimately show ?thesis by (simp add: process_label_def Let_def)
qed

lemma process_label_logs_skip:
  assumes rej: "process_clip split method md y = Inr Skip_too_short" and w: "is_wav f"
  shows "Too_short_skip f \<in>
           set (batch_log (process_label split pcm16 method md (pre @ (f, Inr y) # post) out))"
proof -
  let ?w = "filter (\<lambda>entry. is_wav (fst entry))"
  let ?st0 = "\<lparr>out_dir = out, batch_log = [], count = 0\<rparr>"
  let ?st1 = "process_files split pcm16 method md (?w pre) ?st0"
  let ?st2 = "?st1\<lparr>batch_log := batch_log ?st1 @ [Too_short_skip f]\<rparr>"
  have fl: "?w (pre @ (f, Inr y) # post) = ?w pre @ (f, Inr y) # ?w post"
    using w by simp
  have e: "process_files split pcm16 method md (?w (pre @ (f, Inr y) # post)) ?st0 =
        process_files split pcm16 method md (?w post) ?st2"
    unfolding fl process_files_append process_files_Cons
    by (simp only: process_file_too_short[OF rej])
  have "Too_short_skip f \<in> set (batch_log ?st2)" by simp
  then have "Too_short_skip f \<in>
      set (batch_log (process_files split pcm16 method md (?w post) ?st2))"
    using process_files_log_grows[of ?st2 split pcm16 "method" md "?w post"] by blast
  then show ?thesis using e by (simp add: process_label_def Let_def)
qed

lemma process_label_names:
  "fst ` set (out_dir (process_label split pcm16 method md folder out))
     \<subseteq> fst ` set folder \<union> fst ` set out"
proof -
  have "fst ` set (out_dir (process_label split pcm16 method md folder out))
      \<subseteq> fst ` set (filter (\<lambda>entry. is_wav (fst entry)) folder) \<union> fst ` set out"
    using process_files_names[of split pcm16 "method" md
        "filter (\<lambda>entry. is_wav (fst entry)) folder"
        "\<lparr>out_dir = out, batch_log = [], count = 0\<rparr>"]
    by (simp add: process_label_def Let_def)
  moreover have "fst ` set (filter (\<lambda>entry. is_wav (fst entry)) folder) \<subseteq> fst ` set folder"
    by (rule image_mono) simp
  ultimately show ?thesis by blast
qed

section \<open>Properties\<close>

text \<open>
  Claim C1, as amended. With at least one interval and the method \<open>longest\<close>, the
  selected segment is the slice of an interval of the list whose span \<open>end - start\<close> is
  greatest, and among the intervals of that span it is the one with the greatest start:
  the descending sort of the triples \<open>(span, start, end)\<close> puts it first. For intervals
  inside the waveform the length of the slice is the maximum of the spans. The preview
  keeps this slice, and the batch writes it, unless the duration test discards it.
\<close>

theorem longest_takes_greatest_span_latest_start:
  assumes ne: "split y \<noteq> []"
  shows "\<exists>s e. (s, e) \<in> set (split y) \<and>
           (\<forall>(s', e') \<in> set (split y). e' - s' \<le> e - s) \<and>
           (\<forall>(s', e') \<in> set (split y). e' - s' = e - s \<longrightarrow> s' \<le> s) \<and>
           select_segment ''longest'' y (split y) = Inr (py_slice y s e) \<and>
           (valid_intervals y (split y) \<longrightarrow>
              int (length (py_slice y s e)) = Max ((\<lambda>(s', e'). e' - s') ` set (split y))) \<and>
           (\<exists>st. prepare_processed split ''longest'' md y = Inr st \<and>
              processed_y st =
                (if duration (length (py_slice y s e)) < md then [] else py_slice y s e)) \<and>
           process_clip split ''longest'' md y =
             Inr (if duration (length (py_slice y s e)) < md then Skip_too_short
                  else Write_file (py_slice y s e))"
proof -
  obtain s e where se: "(s, e) \<in> set (split y)"
    and sel: "select_segment ''longest'' y (split y) = Inr (py_slice y s e)"
    and mx: "\<forall>(s', e') \<in> set (split y). e' - s' < e - s \<or> (e' - s' = e - s \<and> s' \<le> s)"
    using select_longest[OF ne, of y] by blast
  have span: "\<forall>(s', e') \<in> set (split y). e' - s' \<le> e - s"
    using mx by fastforce
  have tie: "\<forall>(s', e') \<in> set (split y). e' - s' = e - s \<longrightarrow> s' \<le> s"
    using mx by fastforce
  have len: "int (length (py_slice y s e)) = Max ((\<lambda>(s', e'). e' - s') ` set (split y))"
    if v: "valid_intervals y (split y)"
  proof -
    have "Max ((\<lambda>(s', e'). e' - s') ` set (split y)) = e - s"
    proof (rule Max_eqI)
      show "finite ((\<lambda>(s', e'). e' - s') ` set (split y))" by simp
      show "e - s \<in> (\<lambda>(s', e'). e' - s') ` set (split y)" using se by force
      fix d assume "d \<in> (\<lambda>(s', e'). e' - s') ` set (split y)"
      then show "d \<le> e - s" using span by auto
    qed
    then show ?thesis using py_slice_valid_interval(1)[OF v se] by simp
  qed
  have pre: "\<exists>st. prepare_processed split ''longest'' md y = Inr st \<and>
      processed_y st = (if duration (length (py_slice y s e)) < md then [] else py_slice y s e)"
    using prepare_processed_selected[of split y, OF ne sel, of md] by simp
  have bat: "process_clip split ''longest'' md y =
      Inr (if duration (length (py_slice y s e)) < md then Skip_too_short
           else Write_file (py_slice y s e))"
    using process_clip_selected[of split y, OF ne sel] .
  show ?thesis using se span tie sel len pre bat by blast
qed

text \<open>The property at two intervals of span two, starting at 0 and at 5.\<close>

theorem longest_takes_greatest_span_latest_start_witness:
  "fixed_split [(0, 2), (5, 7)] [10, 11, 12, 13, 14, 15, 16, 17 :: int] \<noteq> [] \<and>
   (\<exists>s e. (s, e) \<in> set [(0, 2), (5, 7)] \<and>
      select_segment ''longest'' [10, 11, 12, 13, 14, 15, 16, 17 :: int] [(0, 2), (5, 7)]
        = Inr (py_slice [10, 11, 12, 13, 14, 15, 16, 17] s e))"
proof -
  have h: "fixed_split [(0, 2), (5, 7)] [10, 11, 12, 13, 14, 15, 16, 17 :: int] \<noteq> []"
    by (simp add: fixed_split_def)
  show ?thesis
    using h longest_takes_greatest_span_latest_start
      [of "fixed_split [(0, 2), (5, 7)]" "[10, 11, 12, 13, 14, 15, 16, 17 :: int]" 0]
    unfolding fixed_split_def by blast
qed

text \<open>
  The two intervals \<open>(0, 2)\<close> and \<open>(5, 7)\<close> tie for the greatest span. The segment is
  the slice of the later one, \<open>[15, 16]\<close>, not the slice \<open>[10, 11]\<close> of the interval
  with the earliest start.
\<close>

theorem longest_tie_earliest_start_counterexample:
  "select_segment ''longest'' [10, 11, 12, 13, 14, 15, 16, 17 :: int] [(0, 2), (5, 7)]
     = Inr (py_slice [10, 11, 12, 13, 14, 15, 16, 17] 5 7) \<and>
   py_slice [10, 11, 12, 13, 14, 15, 16, 17 :: int] 5 7
     \<noteq> py_slice [10, 11, 12, 13, 14, 15, 16, 17] 0 2 \<and>
   prepare_processed (fixed_split [(0, 2), (5, 7)]) ''longest'' 0
       [10, 11, 12, 13, 14, 15, 16, 17 :: int]
     = Inr \<lparr>intervals = [(0, 2), (5, 7)], processed_y = [15, 16],
            preview_log = [Intervals_found 2, Processed_length (duration 2)]\<rparr> \<and>
   process_clip (fixed_split [(0, 2), (5, 7)]) ''longest'' 0
       [10, 11, 12, 13, 14, 15, 16, 17 :: int] = Inr (Write_file [15, 16])"
  by code_simp



text \<open>
  Claim C3. Whatever the length of the input, when the transform gives a matrix of
  \<open>N_MFCC\<close> rows and any number \<open>k\<close> of frames the result has exactly \<open>N_MFCC\<close> rows
  of exactly \<open>MAX_LEN\<close> entries: for \<open>k < MAX_LEN\<close> every row is the row of the transform
  followed by \<open>MAX_LEN - k\<close> zeros, and for \<open>k > MAX_LEN\<close> it is the first \<open>MAX_LEN\<close>
  entries of that row. The tensor handed on carries the channel axis of length one.
\<close>

theorem extract_shape_pad_truncate:
  assumes mat: "is_matrix N_MFCC k mfe"
  shows "is_matrix N_MFCC MAX_LEN (pad_truncate mfe) \<and>
         (k < MAX_LEN \<longrightarrow>
            pad_truncate mfe = map (\<lambda>row. row @ replicate (MAX_LEN - k) 0) mfe) \<and>
         (MAX_LEN < k \<longrightarrow> pad_truncate mfe = map (take MAX_LEN) mfe) \<and>
         (mfe_of samples = Inr mfe \<longrightarrow>
            (\<exists>t. extract_mfe mfe_of samples = Inr t \<and> t = add_channel (pad_truncate mfe) \<and>
               length t = N_MFCC \<and>
               (\<forall>row \<in> set t. length row = MAX_LEN \<and> (\<forall>c \<in> set row. length c = 1))))"
proof -
  have pos: "0 < N_MFCC" by (simp add: N_MFCC_def)
  have shp: "is_matrix N_MFCC MAX_LEN (pad_truncate mfe)"
    using pad_truncate_is_matrix[OF mat pos] .
  have pad: "k < MAX_LEN \<longrightarrow>
      pad_truncate mfe = map (\<lambda>row. row @ replicate (MAX_LEN - k) 0) mfe"
    using pad_truncate_pad[OF mat pos] by blast
  have tr: "MAX_LEN < k \<longrightarrow> pad_truncate mfe = map (take MAX_LEN) mfe"
    using pad_truncate_truncate[OF mat pos] by simp
  have ch: "length (add_channel (pad_truncate mfe)) = N_MFCC \<and>
      (\<forall>row \<in> set (add_channel (pad_truncate mfe)).
          length row = MAX_LEN \<and> (\<forall>c \<in> set row. length c = 1))"
    using shp by (auto simp: add_channel_def is_matrix_def)
  have ex: "mfe_of samples = Inr mfe \<longrightarrow>
      extract_mfe mfe_of samples = Inr (add_channel (pad_truncate mfe))"
    by (simp add: extract_mfe_def)
  show ?thesis using shp pad tr ch ex by blast
qed

text \<open>The property at a transform output of three frames, all of value 7.\<close>

theorem extract_shape_pad_truncate_witness:
  "is_matrix N_MFCC 3 (replicate N_MFCC [7, 7, 7 :: int]) \<and>
   is_matrix N_MFCC MAX_LEN (pad_truncate (replicate N_MFCC [7, 7, 7 :: int])) \<and>
   pad_truncate (replicate N_MFCC [7, 7, 7 :: int]) =
     map (\<lambda>row. row @ replicate (MAX_LEN - 3) 0) (replicate N_MFCC [7, 7, 7])"
proof -
  have h: "is_matrix N_MFCC 3 (replicate N_MFCC [7, 7, 7 :: int])"
    by (simp add: is_matrix_def)
  have l: "(3 :: nat) < MAX_LEN" by (simp add: MAX_LEN_def)
  show ?thesis
    using h l extract_shape_pad_truncate[OF h, of "\<lambda>_. Inl IOError" "[] :: int list"]
    by blast
qed



text \<open>
  Claim C9. A clip whose selected segment the duration test rejects is skipped by the
  batch: its iteration writes no file, leaves the counter as it is and appends the skip
  to the log. The output folder and the count of a label are those obtained without the
  clip, and the log of the label holds the skip. When neither the folder nor another
  recording has the name of the clip, the folder has no file of that name afterwards,
  so the dataset loaded from the folder, which has one example per file read, is the
  dataset loaded without the clip and has no example of it.
\<close>

theorem too_short_clip_is_skipped:
  assumes ne: "split y \<noteq> []"
    and sel: "select_segment method y (split y) = Inr seg"
    and short: "duration (length seg) < md"
  shows "process_file split pcm16 method md (f, Inr y) st =
           st\<lparr>batch_log := batch_log st @ [Too_short_skip f]\<rparr> \<and>
         out_dir (process_label split pcm16 method md (pre @ (f, Inr y) # post) out) =
           out_dir (process_label split pcm16 method md (pre @ post) out) \<and>
         count (process_label split pcm16 method md (pre @ (f, Inr y) # post) out) =
           count (process_label split pcm16 method md (pre @ post) out) \<and>
         (is_wav f \<longrightarrow> Too_short_skip f \<in>
            set (batch_log (process_label split pcm16 method md (pre @ (f, Inr y) # post) out))) \<and>
         (f \<notin> fst ` set out \<and> f \<notin> fst ` set (pre @ post) \<longrightarrow>
            f \<notin> fst ` set (out_dir
              (process_label split pcm16 method md (pre @ (f, Inr y) # post) out))) \<and>
         load_dataset mfe_of
             (base_dir(label := Some (out_dir
                (process_label split pcm16 method md (pre @ (f, Inr y) # post) out)))) labels =
           load_dataset mfe_of
             (base_dir(label := Some (out_dir
                (process_label split pcm16 method md (pre @ post) out)))) labels"
proof -
  have rej: "process_clip split method md y = Inr Skip_too_short"
    using process_clip_selected[of split y, OF ne sel, of md] short by simp
  have one: "process_file split pcm16 method md (f, Inr y) st =
      st\<lparr>batch_log := batch_log st @ [Too_short_skip f]\<rparr>"
    using process_file_too_short[OF rej] .
  have same: "out_dir (process_label split pcm16 method md (pre @ (f, Inr y) # post) out) =
        out_dir (process_label split pcm16 method md (pre @ post) out) \<and>
      count (process_label split pcm16 method md (pre @ (f, Inr y) # post) out) =
        count (process_label split pcm16 method md (pre @ post) out)"
    using process_label_skips[OF rej] .
  have lg: "is_wav f \<longrightarrow> Too_short_skip f \<in>
      set (batch_log (process_label split pcm16 method md (pre @ (f, Inr y) # post) out))"
    using process_label_logs_skip[OF rej] by blast
  have absent: "f \<notin> fst ` set (out_dir
      (process_label split pcm16 method md (pre @ (f, Inr y) # post) out))"
    if "f \<notin> fst ` set out \<and> f \<notin> fst ` set (pre @ post)"
  proof -
    have "fst ` set (out_dir (process_label split pcm16 method md (pre @ post) out))
        \<subseteq> fst ` set (pre @ post) \<union> fst ` set out"
      by (rule process_label_names)
    then have "f \<notin> fst ` set (out_dir (process_label split pcm16 method md (pre @ post) out))"
      using that by blast
    then show ?thesis using same by simp
  qed
  have ds: "load_dataset mfe_of
        (base_dir(label := Some (out_dir
           (process_label split pcm16 method md (pre @ (f, Inr y) # post) out)))) labels =
      load_dataset mfe_of
        (base_dir(label := Some (out_dir
           (process_label split pcm16 method md (pre @ post) out)))) labels"
    using same by simp
  show ?thesis using one same lg absent ds by blast
qed

text \<open>
  The property at a recording of three samples with one interval of two samples, a
  duration of 0.000125 seconds, under a minimum duration of one second: nothing is
  written, nothing is counted and the skip is logged.
\<close>

theorem too_short_clip_is_skipped_witness:
  "fixed_split [(0, 2)] [1, 2, 3 :: int] \<noteq> [] \<and>
   select_segment ''longest'' [1, 2, 3 :: int] (fixed_split [(0, 2)] [1, 2, 3 :: int]) = Inr [1, 2] \<and>
   duration (length [1, 2 :: int]) < 1 \<and>
   process_label (fixed_split [(0, 2)]) id ''longest'' 1 [(''a.wav'', Inr [1, 2, 3 :: int])] [] =
     \<lparr>out_dir = [], batch_log = [Too_short_skip ''a.wav'', Processed_label 0], count = 0\<rparr> \<and>
   out_dir (process_label (fixed_split [(0, 2)]) id ''longest'' 1
       [(''a.wav'', Inr [1, 2, 3 :: int])] ([] :: (string \<times> int list) list)) =
     out_dir (process_label (fixed_split [(0, 2)]) id ''longest'' 1 [] [])"
proof -
  have h1: "fixed_split [(0, 2)] [1, 2, 3 :: int] \<noteq> []"
    by (simp add: fixed_split_def)
  have h2: "select_segment ''longest'' [1, 2, 3 :: int] (fixed_split [(0, 2)] [1, 2, 3 :: int])
      = Inr [1, 2]"
    by code_simp
  have h3: "duration (length [1, 2 :: int]) < 1"
    by code_simp
  have e: "process_label (fixed_split [(0, 2)]) id ''longest'' 1
      [(''a.wav'', Inr [1, 2, 3 :: int])] ([] :: (string \<times> int list) list) =
     \<lparr>out_dir = [], batch_log = [Too_short_skip ''a.wav'', Processed_label 0], count = 0\<rparr>"
    by code_simp
  note t = too_short_clip_is_skipped[of "fixed_split [(0, 2)]" "[1, 2, 3 :: int]" "''longest''"
        "[1, 2]" 1 id "''a.wav''" "\<lparr>out_dir = [], batch_log = [], count = 0\<rparr>" "[]" "[]"
        "[] :: (string \<times> int list) list"
        "\<lambda>samples. Inl IOError :: py_error + int list list" "\<lambda>label. None"
        "''Bat''" "[''Bat'']", OF h1 h2 h3]
  have c: "out_dir (process_label (fixed_split [(0, 2)]) id ''longest'' 1
       [(''a.wav'', Inr [1, 2, 3 :: int])] ([] :: (string \<times> int list) list)) =
     out_dir (process_label (fixed_split [(0, 2)]) id ''longest'' 1 [] [])"
    using t by simp
  show ?thesis using h1 h2 h3 e c by (intro conjI)
qed

text \<open>
  Claim C10. In the preview path and in the batch path the slices are concatenated only
  when there is at least one interval: the case of no interval returns before the policy
  branch. Both computations therefore return a value for every detector, method,
  minimum duration and waveform, and the policy branch returns a segment whenever it is
  reached; \<open>np.concatenate\<close> fails exactly on the empty list of parts, which the guard
  excludes.
\<close>

theorem concatenate_only_on_nonempty_parts:
  "(\<exists>st. prepare_processed split method md y = Inr st) \<and>
   (\<exists>out. process_clip split method md y = Inr out) \<and>
   (split y \<noteq> [] \<longrightarrow> (\<exists>seg. select_segment method y (split y) = Inr seg)) \<and>
   (np_concatenate (map (\<lambda>(s, e). py_slice y s e) ivs) = Inl ValueError \<longleftrightarrow> ivs = [])"
proof -
  have a: "\<exists>st. prepare_processed split method md y = Inr st"
  proof (cases "split y = []")
    case True
    then show ?thesis using prepare_processed_no_intervals[of split y, OF True] by blast
  next
    case False
    obtain seg where "select_segment method y (split y) = Inr seg"
      using select_segment_total[OF False] by blast
    then show ?thesis using prepare_processed_selected[of split y, OF False] by blast
  qed
  have b: "\<exists>out. process_clip split method md y = Inr out"
  proof (cases "split y = []")
    case True
    then show ?thesis using process_clip_no_intervals[of split y, OF True] by blast
  next
    case False
    obtain seg where "select_segment method y (split y) = Inr seg"
      using select_segment_total[OF False] by blast
    then show ?thesis using process_clip_selected[of split y, OF False] by blast
  qed
  have c: "split y \<noteq> [] \<longrightarrow> (\<exists>seg. select_segment method y (split y) = Inr seg)"
    using select_segment_total by blast
  have d: "np_concatenate (map (\<lambda>(s, e). py_slice y s e) ivs) = Inl ValueError \<longleftrightarrow> ivs = []"
    by (cases ivs) (simp_all add: np_concatenate_def)
  show ?thesis using a b c d by blast
qed

text \<open>The property at two intervals under the concatenating method.\<close>

theorem concatenate_only_on_nonempty_parts_witness:
  "(\<exists>st. prepare_processed (fixed_split [(0, 2), (5, 7)]) ''concat'' 0 [10, 11, 12, 13, 14, 15, 16, 17 :: int] = Inr st) \<and>
   fixed_split [(0, 2), (5, 7)] [10, 11, 12, 13, 14, 15, 16, 17 :: int] \<noteq> [] \<and>
   (\<exists>seg. select_segment ''concat'' [10, 11, 12, 13, 14, 15, 16, 17 :: int]
       (fixed_split [(0, 2), (5, 7)] [10, 11, 12, 13, 14, 15, 16, 17 :: int]) = Inr seg)"
  using concatenate_only_on_nonempty_parts
    [of "fixed_split [(0, 2), (5, 7)]" "''concat''" 0 "[10, 11, 12, 13, 14, 15, 16, 17 :: int]" "[]"]
  by (simp add: fixed_split_def)

end
